theory Spec2Isabelle
  imports Main
begin

section \<open>Values, nodes and errors\<close>

text \<open>
  The module \<open>sqlglot/expressions.py\<close> defines the class \<open>Expression\<close> and about 150
  subclasses. A node carries its class, and \<open>args\<close>, a Python dict from argument names to
  values. A Python dict keeps its insertion order, so \<open>args\<close> is an association list with
  distinct keys, in insertion order.

  Modelled from the spec: the class \<open>Token\<close> lives in the tokenizer, which is not part of
  this module. The module reads two attributes of a token, \<open>text\<close> and \<open>token_type\<close>;
  a token is a plain object (always truthy) that carries both.
\<close>

datatype token = Token (tok_text: string) (tok_type: string)

datatype scalar = Tok token | Str string | Bool bool

datatype val = NoneV | Scalar scalar | Lst "val list" | Node expr
  and expr = Expression (cls: string) (args: "(string \<times> val) list")

datatype error = ValueError | AttributeError | TypeError | IndexError | RecursionError
  | RuntimeError | NoObject

text \<open>\<open>d[k] = v\<close> on a dict: an existing key keeps its position, a new key goes last.\<close>

fun dict_set :: "(string \<times> 'v) list \<Rightarrow> string \<Rightarrow> 'v \<Rightarrow> (string \<times> 'v) list" where
  "dict_set [] k v = [(k, v)]"
| "dict_set ((k', v') # d) k v = (if k' = k then (k, v) # d else (k', v') # dict_set d k v)"

text \<open>\<open>d.get(k)\<close>: the value, or Python's \<open>None\<close>.\<close>

definition dict_get :: "(string \<times> val) list \<Rightarrow> string \<Rightarrow> val" where
  "dict_get d k = (case map_of d k of None \<Rightarrow> NoneV | Some v \<Rightarrow> v)"

section \<open>The function binder: \<open>Func.from_arg_list\<close>\<close>

text \<open>
  A subclass of \<open>Func\<close> is described by its name, its \<open>arg_types\<close> (a dict from argument
  name to the required flag, in declaration order) and the flag \<open>is_var_len_args\<close>.
\<close>

record func_class =
  name :: string
  arg_types :: "(string \<times> bool) list"
  is_var_len_args :: bool

text \<open>
  The loop over \<open>non_var_len_arg_keys\<close>: it stops when the positional values are used up,
  binds a value that is not \<open>None\<close>, and moves on to the next value in both cases.
\<close>

fun bind_loop :: "string list \<Rightarrow> val list \<Rightarrow> (string \<times> val) list \<Rightarrow> nat
    \<Rightarrow> (string \<times> val) list \<times> nat" where
  "bind_loop [] args_in args_dict arg_idx = (args_dict, arg_idx)"
| "bind_loop (arg_key # ks) args_in args_dict arg_idx =
     (if arg_idx \<ge> length args_in then (args_dict, arg_idx)
      else bind_loop ks args_in
             (if args_in ! arg_idx \<noteq> NoneV then dict_set args_dict arg_key (args_in ! arg_idx)
              else args_dict)
             (arg_idx + 1))"

text \<open>
  \<open>all_arg_keys[:-1]\<close> is \<open>butlast\<close> (the empty list on the empty list);
  \<open>all_arg_keys[-1]\<close> raises \<open>IndexError\<close> on the empty list.
\<close>

definition from_arg_list :: "func_class \<Rightarrow> val list \<Rightarrow> error + expr" where
  "from_arg_list c args_in =
     (let all_arg_keys = map fst (arg_types c);
          non_var_len_arg_keys =
            (if is_var_len_args c then butlast all_arg_keys else all_arg_keys);
          (args_dict, arg_idx) = bind_loop non_var_len_arg_keys args_in [] 0
      in if arg_idx < length args_in \<and> is_var_len_args c
         then (if all_arg_keys = [] then Inl IndexError
               else Inr (Expression (name c)
                      (dict_set args_dict (last all_arg_keys) (Lst (drop arg_idx args_in)))))
         else Inr (Expression (name c) args_dict))"

text \<open>The subclasses of \<open>Func\<close> of the module, in source order.\<close>

definition func :: "string \<Rightarrow> func_class" where
  "func n = \<lparr>name = n, arg_types = [(''this'', True)], is_var_len_args = False\<rparr>"

definition func_with :: "string \<Rightarrow> (string \<times> bool) list \<Rightarrow> func_class" where
  "func_with n ats = \<lparr>name = n, arg_types = ats, is_var_len_args = False\<rparr>"

definition func_var :: "string \<Rightarrow> (string \<times> bool) list \<Rightarrow> func_class" where
  "func_var n ats = \<lparr>name = n, arg_types = ats, is_var_len_args = True\<rparr>"

definition Anonymous :: func_class where
  "Anonymous = func_var ''Anonymous'' [(''this'', True), (''expressions'', False)]"

definition ArrayContains :: func_class where
  "ArrayContains = func_with ''ArrayContains'' [(''this'', True), (''expression'', True)]"

definition func_classes :: "func_class list" where
  "func_classes =
    [func ''Func'', func ''AggFunc'', func ''Abs'', Anonymous,
     func_with ''ApproxDistinct'' [(''this'', True), (''accuracy'', False)],
     func_var ''Array'' [(''expressions'', False)],
     func ''ArrayAgg'', ArrayContains, func ''ArraySize'', func ''Avg'', func ''Ceil'',
     func_var ''Coalesce'' [(''this'', True), (''expressions'', False)],
     func_with ''Count'' [(''this'', False), (''distinct'', False)],
     func_with ''DateAdd'' [(''this'', True), (''expression'', True), (''unit'', False)],
     func_with ''DateDiff'' [(''this'', True), (''expression'', True), (''unit'', False)],
     func ''DateStrToDate'', func ''Day'', func ''Exp'', func ''Floor'',
     func_var ''Greatest'' [(''this'', True), (''expressions'', True)],
     func_with ''If'' [(''this'', True), (''true'', True), (''false'', False)],
     func ''Initcap'',
     func_with ''JSONPath'' [(''this'', True), (''path'', True)],
     func_var ''Least'' [(''this'', True), (''expressions'', True)],
     func ''Ln'', func ''Log10'',
     func_with ''Map'' [(''keys'', True), (''values'', True)],
     func ''Max'', func ''Min'', func ''Month'',
     func_with ''Pow'' [(''this'', True), (''power'', True)],
     func_with ''Quantile'' [(''this'', True), (''quantile'', True)],
     func_with ''RegexLike'' [(''this'', True), (''expression'', True)],
     func_with ''Round'' [(''this'', True), (''decimals'', False)],
     func_with ''StrPosition'' [(''this'', True), (''substr'', True), (''position'', False)],
     func_with ''StrToTime'' [(''this'', True), (''format'', True)],
     func_with ''StrToUnix'' [(''this'', True), (''format'', True)],
     func_with ''StructExtract'' [(''this'', True), (''expression'', True)],
     func ''Sum'', func ''Sqrt'', func ''Stddev'', func ''StddevPop'', func ''StddevSamp'',
     func_with ''TimeToStr'' [(''this'', True), (''format'', True)],
     func ''TimeToTimeStr'', func ''TimeToUnix'', func ''TimeStrToDate'',
     func ''TimeStrToTime'', func ''TimeStrToUnix'', func ''TsOrDsToDateStr'',
     func ''TsOrDsToDate'',
     func_with ''UnixToStr'' [(''this'', True), (''format'', True)],
     func ''UnixToTime'', func ''UnixToTimeStr'', func ''Variance'', func ''VariancePop'',
     func ''VarianceSamp'']"

text \<open>
  A schema is well formed when its keys are distinct (they are the keys of a dict) and, for a
  variable-length class, there is a last key.
\<close>

definition wf_func :: "func_class \<Rightarrow> bool" where
  "wf_func c = (distinct (map fst (arg_types c)) \<and> (is_var_len_args c \<longrightarrow> arg_types c \<noteq> []))"

text \<open>
  The pairs the loop binds: key \<open>i\<close> with value \<open>i\<close>, as far as both lists go, without the
  positions whose value is \<open>None\<close>.
\<close>

definition bound_pairs :: "string list \<Rightarrow> val list \<Rightarrow> (string \<times> val) list" where
  "bound_pairs ks xs = filter (\<lambda>(k, x). x \<noteq> NoneV) (zip ks xs)"

subsection \<open>Properties of the binder\<close>

lemma func_classes_wf: "list_all wf_func func_classes"
  by (simp add: func_classes_def wf_func_def func_def func_with_def func_var_def
      Anonymous_def ArrayContains_def)

lemma dict_set_fresh: "k \<notin> fst ` set d \<Longrightarrow> dict_set d k v = d @ [(k, v)]"
  by (induction d) auto

lemma dict_set_values: "set (dict_set d k v) \<subseteq> insert (k, v) (set d)"
  by (induction d) (auto split: if_splits)

lemma bound_pairs_simps [simp]:
  "bound_pairs [] xs = []"
  "bound_pairs ks [] = []"
  "bound_pairs (k # ks) (x # xs) =
     (if x \<noteq> NoneV then (k, x) # bound_pairs ks xs else bound_pairs ks xs)"
  by (simp_all add: bound_pairs_def)

lemma bound_pairs_keys: "fst ` set (bound_pairs ks xs) \<subseteq> set ks"
  unfolding bound_pairs_def by (auto dest: set_zip_leftD)

lemma bound_pairs_take: "bound_pairs ks (take (length ks) xs) = bound_pairs ks xs"
proof (induction ks arbitrary: xs)
  case Nil
  then show ?case by simp
next
  case (Cons k ks)
  then show ?case by (cases xs) simp_all
qed

lemma bind_loop_char:
  "distinct ks \<Longrightarrow> set ks \<inter> fst ` set d = {} \<Longrightarrow> i \<le> length xs \<Longrightarrow>
   bind_loop ks xs d i = (d @ bound_pairs ks (drop i xs), min (length xs) (i + length ks))"
proof (induction ks arbitrary: d i)
  case Nil
  then show ?case by simp
next
  case (Cons k ks)
  show ?case
  proof (cases "i \<ge> length xs")
    case True
    then show ?thesis using Cons.prems by simp
  next
    case False
    then have lt: "i < length xs" by simp
    then have dr: "drop i xs = xs ! i # drop (Suc i) xs"
      by (simp add: Cons_nth_drop_Suc)
    show ?thesis
    proof (cases "xs ! i = NoneV")
      case True
      with lt have "bind_loop (k # ks) xs d i = bind_loop ks xs d (Suc i)" by simp
      also have "\<dots> = (d @ bound_pairs ks (drop (Suc i) xs),
                        min (length xs) (Suc i + length ks))"
        using Cons.prems lt by (intro Cons.IH) auto
      finally show ?thesis using True dr by simp
    next
      case False
      have fresh: "k \<notin> fst ` set d" using Cons.prems by auto
      from False lt
      have "bind_loop (k # ks) xs d i = bind_loop ks xs (d @ [(k, xs ! i)]) (Suc i)"
        by (simp add: dict_set_fresh [OF fresh])
      also have "\<dots> = ((d @ [(k, xs ! i)]) @ bound_pairs ks (drop (Suc i) xs),
                        min (length xs) (Suc i + length ks))"
        using Cons.prems lt by (intro Cons.IH) auto
      finally show ?thesis using False dr by simp
    qed
  qed
qed

lemma bind_loop_no_None:
  "NoneV \<notin> snd ` set d \<Longrightarrow> NoneV \<notin> snd ` set (fst (bind_loop ks xs d i))"
proof (induction ks arbitrary: d i)
  case Nil
  then show ?case by simp
next
  case (Cons k ks)
  have "NoneV \<notin> snd ` set (dict_set d k (xs ! i))" if "xs ! i \<noteq> NoneV"
    using dict_set_values [of d k "xs ! i"] Cons.prems that by force
  then show ?case using Cons by simp
qed

text \<open>
  C9. A class that is not variable-length binds positional value \<open>i\<close> to the \<open>i\<close>-th key of
  its schema, in declaration order (a \<open>None\<close> leaves its key unbound), and the values beyond
  the number of keys are dropped: the result is the one for the input cut to the arity.
\<close>

theorem from_arg_list_fixed_arity:
  assumes "\<not> is_var_len_args c" and "wf_func c"
  shows "from_arg_list c xs =
           Inr (Expression (name c) (bound_pairs (map fst (arg_types c)) xs))
         \<and> from_arg_list c xs = from_arg_list c (take (length (arg_types c)) xs)"
proof -
  have d: "distinct (map fst (arg_types c))" using assms(2) by (simp add: wf_func_def)
  have char: "from_arg_list c ys =
      Inr (Expression (name c) (bound_pairs (map fst (arg_types c)) ys))" for ys
    using assms(1) d by (simp add: from_arg_list_def bind_loop_char)
  have "bound_pairs (map fst (arg_types c)) (take (length (map fst (arg_types c))) xs) =
        bound_pairs (map fst (arg_types c)) xs"
    by (rule bound_pairs_take)
  then show ?thesis by (simp add: char)
qed

theorem from_arg_list_fixed_arity_witness:
  "\<not> is_var_len_args ArrayContains \<and> wf_func ArrayContains
   \<and> from_arg_list ArrayContains [Scalar (Str ''a''), Scalar (Str ''b'')] =
       Inr (Expression ''ArrayContains''
             [(''this'', Scalar (Str ''a'')), (''expression'', Scalar (Str ''b''))])
   \<and> from_arg_list ArrayContains [Scalar (Str ''a''), Scalar (Str ''b''), Scalar (Str ''c'')] =
       Inr (Expression ''ArrayContains''
             [(''this'', Scalar (Str ''a'')), (''expression'', Scalar (Str ''b''))])"
proof -
  have h: "\<not> is_var_len_args ArrayContains" "wf_func ArrayContains"
    by (simp_all add: ArrayContains_def func_with_def wf_func_def)
  show ?thesis
    using h from_arg_list_fixed_arity [OF h, of "[Scalar (Str ''a''), Scalar (Str ''b'')]"]
      from_arg_list_fixed_arity [OF h,
        of "[Scalar (Str ''a''), Scalar (Str ''b''), Scalar (Str ''c'')]"]
    by (simp add: ArrayContains_def func_with_def)
qed

text \<open>
  C3. A variable-length class binds positional value \<open>i\<close> to the \<open>i\<close>-th key of its schema
  for every key but the last, in declaration order (a \<open>None\<close> leaves its key unbound), and
  binds the last key to the list of all the values that remain, in order; when no value
  remains the last key stays unbound.
\<close>

theorem from_arg_list_var_len:
  assumes "is_var_len_args c" and "wf_func c"
  shows "from_arg_list c xs =
           Inr (Expression (name c)
             (bound_pairs (butlast (map fst (arg_types c))) xs @
              (if length (arg_types c) - 1 < length xs
               then [(last (map fst (arg_types c)), Lst (drop (length (arg_types c) - 1) xs))]
               else [])))"
proof -
  let ?ks = "map fst (arg_types c)"
  have dk: "distinct ?ks" and ne: "?ks \<noteq> []"
    using assms by (simp_all add: wf_func_def)
  have d: "distinct (butlast ?ks)" using dk by (rule distinct_butlast)
  have "distinct (butlast ?ks @ [last ?ks])" using dk ne by simp
  then have l: "last ?ks \<notin> set (butlast ?ks)" by (simp only: distinct_append) auto
  have fresh: "last ?ks \<notin> fst ` set (bound_pairs (butlast ?ks) xs)"
    using l bound_pairs_keys by blast
  have bl: "bind_loop (butlast ?ks) xs [] 0 =
      (bound_pairs (butlast ?ks) xs, min (length xs) (length (arg_types c) - 1))"
    using d by (simp add: bind_loop_char)
  show ?thesis
    using assms(1) ne
    by (auto simp: from_arg_list_def Let_def bl dict_set_fresh [OF fresh] min_def)
qed

theorem from_arg_list_var_len_witness:
  "is_var_len_args Anonymous \<and> wf_func Anonymous
   \<and> from_arg_list Anonymous [Scalar (Str ''a''), Scalar (Str ''b''), Scalar (Str ''c'')] =
       Inr (Expression ''Anonymous''
             [(''this'', Scalar (Str ''a'')),
              (''expressions'', Lst [Scalar (Str ''b''), Scalar (Str ''c'')])])"
proof -
  have h: "is_var_len_args Anonymous" "wf_func Anonymous"
    by (simp_all add: Anonymous_def func_var_def wf_func_def)
  show ?thesis
    using h from_arg_list_var_len [OF h,
        of "[Scalar (Str ''a''), Scalar (Str ''b''), Scalar (Str ''c'')]"]
    by (simp add: Anonymous_def func_var_def)
qed

text \<open>
  C2, as stated, fails: the list bound to the last key of a variable-length class is the
  slice \<open>args[arg_idx:]\<close> as it is, so a \<open>None\<close> after the fixed positions is recorded
  inside it.
\<close>

theorem from_arg_list_None_in_tail:
  "from_arg_list Anonymous [Scalar (Str ''a''), NoneV, Scalar (Str ''b'')] =
     Inr (Expression ''Anonymous''
           [(''this'', Scalar (Str ''a'')), (''expressions'', Lst [NoneV, Scalar (Str ''b'')])])"
  by (simp add: from_arg_list_def Anonymous_def func_var_def)

text \<open>
  C2, amended. No key of the resulting mapping is bound to \<open>None\<close>: a \<open>None\<close> at a fixed
  position leaves its key unbound, and the last key of a variable-length class is bound to
  a list.
\<close>

theorem from_arg_list_binds_no_None:
  assumes "from_arg_list c xs = Inr e"
  shows "NoneV \<notin> snd ` set (args e)"
proof -
  obtain d i where bl: "bind_loop (if is_var_len_args c then butlast (map fst (arg_types c))
        else map fst (arg_types c)) xs [] 0 = (d, i)"
    by (cases "bind_loop (if is_var_len_args c then butlast (map fst (arg_types c))
        else map fst (arg_types c)) xs [] 0")
  have nd: "NoneV \<notin> snd ` set d"
    using bind_loop_no_None [of "[]" _ xs 0] bl by (metis empty_iff fst_conv image_empty list.set(1))
  have nd': "(a, NoneV) \<notin> set d" for a using nd by force
  have "(a, NoneV) \<notin> set (dict_set d k (Lst ys))" for a k ys
    using dict_set_values [of d k "Lst ys"] nd' by auto
  then show ?thesis
    using assms nd' bl by (auto simp: from_arg_list_def Let_def split: if_splits)
qed

theorem from_arg_list_binds_no_None_witness:
  "from_arg_list Anonymous [NoneV, Scalar (Str ''a''), NoneV] =
     Inr (Expression ''Anonymous'' [(''expressions'', Lst [Scalar (Str ''a''), NoneV])])
   \<and> NoneV \<notin> snd ` set [(''expressions'', Lst [Scalar (Str ''a''), NoneV])]"
proof -
  have h: "from_arg_list Anonymous [NoneV, Scalar (Str ''a''), NoneV] =
     Inr (Expression ''Anonymous'' [(''expressions'', Lst [Scalar (Str ''a''), NoneV])])"
    by (simp add: from_arg_list_def Anonymous_def func_var_def)
  show ?thesis using h from_arg_list_binds_no_None [OF h] by simp
qed

section \<open>Equality and hashing\<close>

subsection \<open>Strings\<close>


definition lower_char :: "char \<Rightarrow> char" where
  "lower_char c =
     (let n = (of_char c :: nat) in if 65 \<le> n \<and> n \<le> 90 then char_of (n + 32) else c)"


definition lower :: "string \<Rightarrow> string" where
  "lower s = map lower_char s"


subsection \<open>Results that may raise\<close>

definition bind_res :: "error + 'a \<Rightarrow> ('a \<Rightarrow> error + 'b) \<Rightarrow> error + 'b" where
  "bind_res m f = (case m of Inl e \<Rightarrow> Inl e | Inr x \<Rightarrow> f x)"

fun map_res :: "('a \<Rightarrow> error + 'b) \<Rightarrow> 'a list \<Rightarrow> error + 'b list" where
  "map_res f [] = Inr []"
| "map_res f (x # xs) = bind_res (f x) (\<lambda>y. bind_res (map_res f xs) (\<lambda>ys. Inr (y # ys)))"

subsection \<open>Reading the text of a token argument\<close>

text \<open>
  Python's truth value of an object: \<open>None\<close>, \<open>False\<close>, the empty string and the empty
  list are false; a token and a node (\<open>Expression\<close> defines neither \<open>__bool__\<close> nor
  \<open>__len__\<close>) are true.
\<close>

definition truthy :: "val \<Rightarrow> bool" where
  "truthy v = (case v of NoneV \<Rightarrow> False | Scalar (Tok t) \<Rightarrow> True | Scalar (Str s) \<Rightarrow> s \<noteq> []
     | Scalar (Bool b) \<Rightarrow> b | Lst xs \<Rightarrow> xs \<noteq> [] | Node e \<Rightarrow> True)"

lemma size_dict_get: "size (dict_get d k) \<le> size_list (size_prod (\<lambda>x. 0) size) d"
  by (induction d) (auto simp: dict_get_def)

text \<open>
  The attribute \<open>.text\<close> of a value: a token has it; so has a \<open>Literal\<close> node, whose
  property \<open>text\<close> is \<open>_token_arg_text(self, "this")\<close>; any other object raises
  \<open>AttributeError\<close>.
\<close>

function text_attr :: "val \<Rightarrow> error + string option" where
  "text_attr (Scalar (Tok t)) = Inr (Some (tok_text t))"
| "text_attr (Node (Expression c d)) =
     (if c = ''Literal''
      then (let arg = dict_get d ''this'' in if truthy arg then text_attr arg else Inr None)
      else Inl AttributeError)"
| "text_attr NoneV = Inl AttributeError"
| "text_attr (Scalar (Str s)) = Inl AttributeError"
| "text_attr (Scalar (Bool b)) = Inl AttributeError"
| "text_attr (Lst xs) = Inl AttributeError"
  by pat_completeness auto
termination
  apply (relation "measure size")
   apply simp
  subgoal for c d x using size_dict_get [of d "''this''"] by simp
  done

text \<open>\<open>_token_arg_text(expression, kind)\<close>: \<open>arg.text if arg else None\<close>.\<close>

definition token_arg_text :: "expr \<Rightarrow> string \<Rightarrow> error + string option" where
  "token_arg_text expression kind =
     (let arg = dict_get (args expression) kind in if truthy arg then text_attr arg else Inr None)"

text \<open>\<open>s or ""\<close> and \<open>f.upper()\<close>, on a text that may be \<open>None\<close>.\<close>

definition or_empty :: "string option \<Rightarrow> string" where
  "or_empty s = (case s of None \<Rightarrow> [] | Some t \<Rightarrow> t)"

definition upper_attr :: "(string \<Rightarrow> string) \<Rightarrow> string option \<Rightarrow> error + string" where
  "upper_attr up f = (case f of None \<Rightarrow> Inl AttributeError | Some t \<Rightarrow> Inr (up t))"

text \<open>
  \<open>isinstance(e, C)\<close> for \<open>C\<close> one of \<open>Column\<close> and \<open>Literal\<close>, which have no subclass in
  the module; \<open>self.key\<close> is the lower-case class name.
\<close>

definition isinstance :: "expr \<Rightarrow> string \<Rightarrow> bool" where
  "isinstance e c = (cls e = c)"

definition key :: "expr \<Rightarrow> string" where
  "key self = lower (cls self)"

subsection \<open>What is hashed\<close>

text \<open>
  Each \<open>__hash__\<close> of the module is \<open>hash(t)\<close> for a tuple \<open>t\<close> it builds. The built-in
  \<open>hash\<close> of a tuple is computed from the hashes of its items, and the hash of a node inside
  a tuple is the hash of that node's own tuple; so the hash of a node is the built-in hash
  of the nested tuple below, and the built-in hash itself is a parameter \<open>H\<close>.
\<close>

datatype hval = HNone | HStr string | HBool bool | HTok token | HTuple "hval list"

definition hstr_opt :: "string option \<Rightarrow> hval" where
  "hstr_opt s = (case s of None \<Rightarrow> HNone | Some t \<Rightarrow> HStr t)"

subsection \<open>\<open>Column\<close>\<close>

definition Column_name :: "expr \<Rightarrow> error + string option" where
  "Column_name self = token_arg_text self ''this''"

definition Column_table :: "expr \<Rightarrow> error + string option" where
  "Column_table self = token_arg_text self ''table''"

definition Column_db :: "expr \<Rightarrow> error + string option" where
  "Column_db self = token_arg_text self ''db''"

text \<open>
  \<open>[t.text for t in fields] if fields else []\<close>: a list gives the texts of its items, a
  non-empty string iterates over its characters, which have no \<open>text\<close>, and any other true
  value is not iterable.
\<close>

definition Column_fields :: "expr \<Rightarrow> error + string option list" where
  "Column_fields self =
     (let fields = dict_get (args self) ''fields''
      in if truthy fields
         then (case fields of
                 Lst ts \<Rightarrow> map_res text_attr ts
               | Scalar (Str s) \<Rightarrow> Inl AttributeError
               | _ \<Rightarrow> Inl TypeError)
         else Inr [])"

text \<open>\<open>Column.__eq__\<close>: the conjuncts are evaluated from left to right, up to the first
  false one.\<close>

definition Column_eq :: "(string \<Rightarrow> string) \<Rightarrow> expr \<Rightarrow> expr \<Rightarrow> error + bool" where
  "Column_eq up self other =
     (if \<not> isinstance other ''Column'' then Inr False
      else bind_res (Column_name self) (\<lambda>n1. bind_res (Column_name other) (\<lambda>n2.
        if up (or_empty n1) \<noteq> up (or_empty n2) then Inr False
        else bind_res (Column_table self) (\<lambda>t1. bind_res (Column_table other) (\<lambda>t2.
          if up (or_empty t1) \<noteq> up (or_empty t2) then Inr False
          else bind_res (Column_db self) (\<lambda>d1. bind_res (Column_db other) (\<lambda>d2.
            if up (or_empty d1) \<noteq> up (or_empty d2) then Inr False
            else bind_res (Column_fields self) (\<lambda>f1. bind_res (map_res (upper_attr up) f1) (\<lambda>u1.
                 bind_res (Column_fields other) (\<lambda>f2. bind_res (map_res (upper_attr up) f2) (\<lambda>u2.
                   Inr (u1 = u2))))))))))))"

definition Column_hash :: "(string \<Rightarrow> string) \<Rightarrow> expr \<Rightarrow> error + hval" where
  "Column_hash up self =
     bind_res (Column_name self) (\<lambda>n. bind_res (Column_table self) (\<lambda>t.
     bind_res (Column_db self) (\<lambda>d. bind_res (Column_fields self) (\<lambda>f.
     bind_res (map_res (upper_attr up) f) (\<lambda>u.
       Inr (HTuple [HStr (key self), HStr (up (or_empty n)), HStr (up (or_empty t)),
                    HStr (up (or_empty d)), HTuple (map HStr u)]))))))"

subsection \<open>\<open>Literal\<close>\<close>

text \<open>
  \<open>self.token.token_type\<close>: the kind of a token; a node answers with the class attribute
  \<open>Expression.token_type\<close>, which is \<open>None\<close>; \<open>None\<close> and the other scalars raise.
  \<open>Literal.__hash__\<close> reads \<open>self.token_type\<close>, the class attribute of the literal itself.
\<close>

definition token_type_attr :: "val \<Rightarrow> error + string option" where
  "token_type_attr v = (case v of Scalar (Tok t) \<Rightarrow> Inr (Some (tok_type t))
     | Node e \<Rightarrow> Inr None | _ \<Rightarrow> Inl AttributeError)"

definition Literal_token :: "expr \<Rightarrow> val" where
  "Literal_token self = dict_get (args self) ''this''"

definition Literal_text :: "expr \<Rightarrow> error + string option" where
  "Literal_text self = token_arg_text self ''this''"

definition Literal_eq :: "expr \<Rightarrow> expr \<Rightarrow> error + bool" where
  "Literal_eq self other =
     (if \<not> isinstance other ''Literal'' then Inr False
      else bind_res (Literal_text self) (\<lambda>t1. bind_res (Literal_text other) (\<lambda>t2.
        if t1 \<noteq> t2 then Inr False
        else bind_res (token_type_attr (Literal_token self)) (\<lambda>k1.
             bind_res (token_type_attr (Literal_token other)) (\<lambda>k2. Inr (k1 = k2))))))"

definition Literal_hash :: "expr \<Rightarrow> error + hval" where
  "Literal_hash self =
     bind_res (Literal_text self) (\<lambda>t. Inr (HTuple [HStr (key self), hstr_opt t, HNone]))"

subsection \<open>\<open>Expression.__eq__\<close> and \<open>Expression.__hash__\<close>\<close>

text \<open>
  \<open>a == b\<close> on values. Scalars compare by value (a token of Python compares by identity,
  and a container of Python takes an item that is the same object as equal without
  calling \<open>__eq__\<close>: the answers below are Python's where equal tokens are the same object
  and no comparison raises). Two lists of the same length compare their
  items in order, up to the first pair that differs. Two dicts of the same size compare, for
  each key of the left one in its order, the two values under that key (\<open>items_eq\<close>); the
  order of the keys of the right one plays no part. Two nodes compare with the \<open>__eq__\<close>
  of the class of the left one; every \<open>__eq__\<close> of the module answers \<open>False\<close> for two nodes
  of different classes.
\<close>

fun val_eq :: "(string \<Rightarrow> string) \<Rightarrow> val \<Rightarrow> val \<Rightarrow> error + bool"
  and list_eq :: "(string \<Rightarrow> string) \<Rightarrow> val list \<Rightarrow> val list \<Rightarrow> error + bool"
  and items_eq :: "(string \<Rightarrow> string) \<Rightarrow> (string \<times> val) list \<Rightarrow> (string \<times> val) list \<Rightarrow> error + bool"
  and expr_eq :: "(string \<Rightarrow> string) \<Rightarrow> expr \<Rightarrow> expr \<Rightarrow> error + bool" where
  "val_eq up NoneV b = Inr (b = NoneV)"
| "val_eq up (Scalar s) b = Inr (b = Scalar s)"
| "val_eq up (Lst xs) b = (case b of Lst ys \<Rightarrow>
       if length xs \<noteq> length ys then Inr False else list_eq up xs ys | _ \<Rightarrow> Inr False)"
| "val_eq up (Node x) b = (case b of Node y \<Rightarrow> expr_eq up x y | _ \<Rightarrow> Inr False)"
| "list_eq up [] ys = Inr True"
| "list_eq up (x # xs) ys = (case ys of [] \<Rightarrow> Inr True | y # ys' \<Rightarrow>
       bind_res (val_eq up x y) (\<lambda>r. if r then list_eq up xs ys' else Inr False))"
| "items_eq up [] b = Inr True"
| "items_eq up ((k, v) # a) b = (case map_of b k of None \<Rightarrow> Inr False | Some bv \<Rightarrow>
       bind_res (val_eq up v bv) (\<lambda>r. if r then items_eq up a b else Inr False))"
| "expr_eq up (Expression c a) other =
     (if c = ''Column'' then Column_eq up (Expression c a) other
      else if c = ''Literal'' then Literal_eq (Expression c a) other
      else if c \<noteq> cls other then Inr False
      else if length a \<noteq> length (args other) then Inr False
      else items_eq up a (args other))"

text \<open>
  The tuple \<open>Expression.__hash__\<close> hashes: the key, and for each item of \<open>args\<close>, in
  insertion order, the pair of the name and the value, a list value turned into a tuple.
  A list inside a list is not hashable.
\<close>

fun val_hash :: "(string \<Rightarrow> string) \<Rightarrow> val \<Rightarrow> error + hval"
  and list_hash :: "(string \<Rightarrow> string) \<Rightarrow> val list \<Rightarrow> error + hval list"
  and items_hash :: "(string \<Rightarrow> string) \<Rightarrow> (string \<times> val) list \<Rightarrow> error + hval list"
  and expr_hash :: "(string \<Rightarrow> string) \<Rightarrow> expr \<Rightarrow> error + hval" where
  "val_hash up NoneV = Inr HNone"
| "val_hash up (Scalar s) = Inr (case s of Tok t \<Rightarrow> HTok t | Str x \<Rightarrow> HStr x | Bool b \<Rightarrow> HBool b)"
| "val_hash up (Lst xs) = Inl TypeError"
| "val_hash up (Node e) = expr_hash up e"
| "list_hash up [] = Inr []"
| "list_hash up (x # xs) =
     bind_res (val_hash up x) (\<lambda>h. bind_res (list_hash up xs) (\<lambda>hs. Inr (h # hs)))"
| "items_hash up [] = Inr []"
| "items_hash up ((k, v) # a) =
     bind_res (case v of Lst xs \<Rightarrow> bind_res (list_hash up xs) (\<lambda>hs. Inr (HTuple hs))
               | _ \<Rightarrow> val_hash up v)
       (\<lambda>h. bind_res (items_hash up a) (\<lambda>hs. Inr (HTuple [HStr k, h] # hs)))"
| "expr_hash up (Expression c a) =
     (if c = ''Column'' then Column_hash up (Expression c a)
      else if c = ''Literal'' then Literal_hash (Expression c a)
      else bind_res (items_hash up a) (\<lambda>hs. Inr (HTuple [HStr (lower c), HTuple hs])))"


text \<open>Constructors used in the examples: an identifier token, \<open>Column(**a)\<close>, \<open>EQ(**a)\<close>.\<close>

definition tok :: "string \<Rightarrow> val" where
  "tok s = Scalar (Tok (Token s ''VAR''))"


definition EQ :: "(string \<times> val) list \<Rightarrow> expr" where
  "EQ a = Expression ''EQ'' a"

subsection \<open>Properties of equality and hashing\<close>





text \<open>
  Equality implies equality of what is hashed for the two classes that override both
  methods.
\<close>

lemma Column_eq_imp_hash:
  assumes "isinstance x ''Column''" and "expr_eq up x y = Inr True"
  shows "expr_hash up x = expr_hash up y"
proof -
  have cx: "cls x = ''Column''" using assms(1) by (simp add: isinstance_def)
  then have eq: "Column_eq up x y = Inr True" using assms(2) by (cases x) simp
  then have cy: "cls y = ''Column''"
    by (auto simp: Column_eq_def isinstance_def split: if_splits)
  have "Column_hash up x = Column_hash up y"
    using eq cx cy
    by (auto simp: Column_eq_def Column_hash_def isinstance_def bind_res_def key_def
        split: if_splits sum.splits)
  moreover have "expr_hash up x = Column_hash up x" "expr_hash up y = Column_hash up y"
    using cx cy by (cases x; cases y; simp)+
  ultimately show ?thesis by simp
qed

lemma Literal_eq_imp_hash:
  assumes "isinstance x ''Literal''" and "expr_eq up x y = Inr True"
  shows "expr_hash up x = expr_hash up y"
proof -
  have cx: "cls x = ''Literal''" using assms(1) by (simp add: isinstance_def)
  then have eq: "Literal_eq x y = Inr True" using assms(2) by (cases x) simp
  then have cy: "cls y = ''Literal''"
    by (auto simp: Literal_eq_def isinstance_def split: if_splits)
  have "Literal_hash x = Literal_hash y"
    using eq cx cy
    by (auto simp: Literal_eq_def Literal_hash_def isinstance_def bind_res_def key_def
        split: if_splits sum.splits)
  moreover have "expr_hash up x = Literal_hash x" "expr_hash up y = Literal_hash y"
    using cx cy by (cases x; cases y; simp)+
  ultimately show ?thesis by simp
qed

text \<open>
  C10 fails on the generic \<open>Expression\<close>: \<open>__eq__\<close> compares \<open>args\<close> as dicts, whatever
  the order of their keys, and \<open>__hash__\<close> hashes the items in insertion order. The nodes
  \<open>EQ(this=a, expression=b)\<close> and \<open>EQ(expression=b, this=a)\<close> are equal, and the two
  tuples that are hashed differ.
\<close>

theorem Expression_eq_but_hash_differs:
  "expr_eq up (EQ [(''this'', tok ''a''), (''expression'', tok ''b'')])
           (EQ [(''expression'', tok ''b''), (''this'', tok ''a'')]) = Inr True
   \<and> expr_hash up (EQ [(''this'', tok ''a''), (''expression'', tok ''b'')]) =
       Inr (HTuple [HStr ''eq'', HTuple [HTuple [HStr ''this'', HTok (Token ''a'' ''VAR'')],
                                         HTuple [HStr ''expression'', HTok (Token ''b'' ''VAR'')]]])
   \<and> expr_hash up (EQ [(''expression'', tok ''b''), (''this'', tok ''a'')]) =
       Inr (HTuple [HStr ''eq'', HTuple [HTuple [HStr ''expression'', HTok (Token ''b'' ''VAR'')],
                                         HTuple [HStr ''this'', HTok (Token ''a'' ''VAR'')]]])
   \<and> expr_hash up (EQ [(''this'', tok ''a''), (''expression'', tok ''b'')]) \<noteq>
     expr_hash up (EQ [(''expression'', tok ''b''), (''this'', tok ''a'')])"
  by code_simp

section \<open>Traversal: \<open>walk\<close>, \<open>bfs\<close>, \<open>dfs\<close>, \<open>find\<close>, \<open>find_all\<close>\<close>

text \<open>
  A traversal yields triples of an item, the item's parent and the name of the argument that
  holds it. The traversals read the tree and change nothing, so they are defined on the
  tree as a value; the parent of the receiver, \<open>self.parent\<close>, is a parameter.
\<close>

type_synonym triple = "val \<times> expr option \<times> string option"

text \<open>
  Modelled from the spec: \<open>ensure_list\<close> is a helper of \<open>sqlglot.helper\<close>, outside this
  module; it leaves a list as it is and wraps any other value as a one-element list.
\<close>

definition ensure_list :: "val \<Rightarrow> val list" where
  "ensure_list v = (case v of Lst xs \<Rightarrow> xs | _ \<Rightarrow> [v])"

text \<open>
  What the loop of \<open>bfs\<close> appends to the queue for a removed item, in order: nothing for
  an item that is not a node; for a node, for each item of \<open>args\<close> in the order of the
  dict, each value of \<open>ensure_list(v)\<close>, with the node as parent and the key.
\<close>

definition pushed :: "val \<Rightarrow> triple list" where
  "pushed item = (case item of
      Node e \<Rightarrow> concat (map (\<lambda>(k, v). map (\<lambda>node. (node, Some e, Some k)) (ensure_list v)) (args e))
    | _ \<Rightarrow> [])"

text \<open>
  The reading of the specification, for comparison with \<open>pushed\<close>: the children taken in
  the order in which the class of the node declares its keys in \<open>arg_types\<close>, here the list
  \<open>ks\<close>; a declared key that has no value in \<open>args\<close> contributes nothing.
\<close>

definition pushed_declared :: "string list \<Rightarrow> val \<Rightarrow> triple list" where
  "pushed_declared ks item = (case item of
      Node e \<Rightarrow> concat (map (\<lambda>k. case map_of (args e) k of
                                  None \<Rightarrow> []
                                | Some v \<Rightarrow> map (\<lambda>node. (node, Some e, Some k)) (ensure_list v)) ks)
    | _ \<Rightarrow> [])"

text \<open>\<open>Binary.arg_types\<close>, which \<open>And\<close>, \<open>EQ\<close> and \<open>GT\<close> inherit.\<close>

definition Binary_arg_types :: "(string \<times> bool) list" where
  "Binary_arg_types = [(''this'', True), (''expression'', True)]"

text \<open>
  The measure that makes the loops terminate: each queued item counts for its size plus
  one, and what a removed item pushes weighs less than the item.
\<close>

definition weight :: "triple list \<Rightarrow> nat" where
  "weight q = sum_list (map (\<lambda>t. Suc (size (fst t))) q)"

lemma weight_append [simp]: "weight (a @ b) = weight a + weight b"
  by (simp add: weight_def)

lemma sum_list_Suc: "(\<Sum>x\<leftarrow>xs. Suc (f x)) = sum_list (map f xs) + length xs"
  by (induction xs) simp_all

lemma weight_items:
  "weight (concat (map (\<lambda>(k, v). map (\<lambda>node. (node, p, Some k)) (ensure_list v)) a))
     \<le> size_list (size_prod (\<lambda>x. 0) size) a"
proof (induction a)
  case Nil
  then show ?case by (simp add: weight_def)
next
  case (Cons kv a)
  obtain k v where kv: "kv = (k, v)" by (cases kv)
  have "weight (map (\<lambda>node. (node, p, Some k)) (ensure_list v)) \<le> Suc (size v)"
    by (cases v) (simp_all add: ensure_list_def weight_def comp_def size_list_conv_sum_list sum_list_Suc)
  then show ?case using Cons kv by simp
qed

lemma weight_pushed: "weight (pushed item) \<le> size item"
proof (cases item)
  case (Node e)
  then show ?thesis using weight_items [of "Some e" "args e"] by (cases e) (simp add: pushed_def)
qed (simp_all add: pushed_def weight_def)

text \<open>
  The \<open>while queue\<close> loop of \<open>bfs\<close>: \<open>queue.pop()\<close> removes the last element of the list,
  the triple is yielded, and the children are appended at the end.
\<close>

function bfs_loop :: "triple list \<Rightarrow> triple list" where
  "bfs_loop queue =
     (if queue = [] then []
      else let (item, parent, akey) = last queue; queue' = butlast queue
           in (item, parent, akey) # bfs_loop (queue' @ pushed item))"
  by pat_completeness auto
termination
proof (relation "measure weight")
  show "wf (measure weight)" by simp
next
  fix queue :: "triple list" and x item y parent akey queue'
  assume "queue \<noteq> []" "x = last queue" "(item, y) = x" "(parent, akey) = y" "queue' = butlast queue"
  then have q: "queue = queue' @ [(item, parent, akey)]" by (metis append_butlast_last_id)
  have "weight (queue' @ pushed item) < weight queue"
    using weight_pushed [of item] by (simp add: q weight_def)
  then show "(queue' @ pushed item, queue) \<in> measure weight" by simp
qed

declare bfs_loop.simps [simp del]

definition bfs :: "expr \<Rightarrow> expr option \<Rightarrow> triple list" where
  "bfs self parent = bfs_loop [(Node self, parent, None)]"

lemma weight_member: "t \<in> set q \<Longrightarrow> size (fst t) < weight q"
  by (induction q) (auto simp: weight_def)

lemma pushed_smaller: "t \<in> set (pushed item) \<Longrightarrow> size (fst t) < size item"
  using weight_member [of t "pushed item"] weight_pushed [of item] by simp

text \<open>
  \<open>dfs\<close>: the node, then for each child in order the child's own \<open>dfs\<close> (a child that
  is not a node is yielded alone; it pushes nothing).
\<close>

function dfs :: "triple \<Rightarrow> triple list" where
  "dfs (item, parent, akey) = (item, parent, akey) # concat (map dfs (pushed item))"
  by pat_completeness auto
termination
  by (relation "measure (\<lambda>t. size (fst t))") (auto dest: pushed_smaller)

text \<open>
  The same depth-first visit with the children of every node taken from the last to the
  first; \<open>bfs\<close> is shown below to produce exactly this order.
\<close>

function dfs_reversed :: "triple \<Rightarrow> triple list" where
  "dfs_reversed (item, parent, akey) =
     (item, parent, akey) # concat (map dfs_reversed (rev (pushed item)))"
  by pat_completeness auto
termination
  by (relation "measure (\<lambda>t. size (fst t))") (auto dest: pushed_smaller)

declare dfs.simps [simp del] dfs_reversed.simps [simp del]

text \<open>
  Canonical level order, for comparison: the same queue, but the next item is removed at
  the front.
\<close>

function level_loop :: "triple list \<Rightarrow> triple list" where
  "level_loop [] = []"
| "level_loop (t # queue) = t # level_loop (queue @ pushed (fst t))"
  by pat_completeness auto
termination
proof (relation "measure weight")
  show "wf (measure weight)" by simp
next
  fix t :: triple and queue
  show "(queue @ pushed (fst t), t # queue) \<in> measure weight"
    using weight_pushed [of "fst t"] by (simp add: weight_def)
qed

definition level_order :: "expr \<Rightarrow> expr option \<Rightarrow> triple list" where
  "level_order self parent = level_loop [(Node self, parent, None)]"

text \<open>
  \<open>walk(bfs=True)\<close>, and \<open>find_all\<close> and \<open>find\<close>, which filter \<open>self.walk()\<close>. The
  \<open>expression_types\<close> are classes of nodes, given as a predicate on the class name (closed
  under subclasses); an item that is not a node matches none of them.
\<close>

definition walk :: "expr \<Rightarrow> expr option \<Rightarrow> bool \<Rightarrow> triple list" where
  "walk self parent bfs_flag =
     (if bfs_flag then bfs self parent else dfs (Node self, parent, None))"

definition matching :: "(string \<Rightarrow> bool) \<Rightarrow> triple list \<Rightarrow> expr list" where
  "matching expression_types ts =
     concat (map (\<lambda>(expression, _, _). case expression of
         Node e \<Rightarrow> if expression_types (cls e) then [e] else [] | _ \<Rightarrow> []) ts)"

definition find_all :: "expr \<Rightarrow> expr option \<Rightarrow> (string \<Rightarrow> bool) \<Rightarrow> expr list" where
  "find_all self parent expression_types = matching expression_types (walk self parent True)"

definition find :: "expr \<Rightarrow> expr option \<Rightarrow> (string \<Rightarrow> bool) \<Rightarrow> expr option" where
  "find self parent expression_types =
     (case find_all self parent expression_types of [] \<Rightarrow> None | e # _ \<Rightarrow> Some e)"

text \<open>
The tree of \<open>a1 = a2 AND b1 > b2\<close>, with strings as leaves.
\<close>

definition eq_node :: expr where
  "eq_node = Expression ''EQ'' [(''this'', Scalar (Str ''a1'')), (''expression'', Scalar (Str ''a2''))]"

definition gt_node :: expr where
  "gt_node = Expression ''GT'' [(''this'', Scalar (Str ''b1'')), (''expression'', Scalar (Str ''b2''))]"

definition and_node :: expr where
  "and_node = Expression ''And'' [(''this'', Node eq_node), (''expression'', Node gt_node)]"

text \<open>
  The same node built with the keyword arguments in the other order,
  \<open>And(expression=..., this=...)\<close>.
\<close>

definition and_swapped :: expr where
  "and_swapped = Expression ''And'' [(''expression'', Node gt_node), (''this'', Node eq_node)]"

subsection \<open>Properties of the traversal\<close>

lemma bfs_loop_Nil: "bfs_loop [] = []"
  by (simp add: bfs_loop.simps [of "[]"])

lemma bfs_loop_snoc:
  "bfs_loop (q @ [(item, parent, akey)]) = (item, parent, akey) # bfs_loop (q @ pushed item)"
  by (subst bfs_loop.simps) simp

lemma dfs_reversed_fst: "dfs_reversed t = t # concat (map dfs_reversed (rev (pushed (fst t))))"
  by (cases t) (simp add: dfs_reversed.simps)

lemma bfs_loop_dfs_reversed: "bfs_loop q = concat (map dfs_reversed (rev q))"
proof (induction q rule: bfs_loop.induct)
  case (1 queue)
  show ?case
  proof (cases "queue = []")
    case True
    then show ?thesis by (simp add: bfs_loop_Nil)
  next
    case False
    obtain item parent akey where l: "last queue = (item, parent, akey)"
      by (cases "last queue")
    have q: "queue = butlast queue @ [(item, parent, akey)]"
      using False l by (metis append_butlast_last_id)
    have ih: "bfs_loop (butlast queue @ pushed item) =
        concat (map dfs_reversed (rev (butlast queue @ pushed item)))"
      by (rule 1 [OF False refl l [symmetric] refl refl])
    have "bfs_loop queue = (item, parent, akey) # bfs_loop (butlast queue @ pushed item)"
      by (subst q) (rule bfs_loop_snoc)
    also have "\<dots> = dfs_reversed (item, parent, akey) @
        concat (map dfs_reversed (rev (butlast queue)))"
      by (simp add: ih dfs_reversed.simps)
    also have "\<dots> = concat (map dfs_reversed (rev (butlast queue @ [(item, parent, akey)])))"
      by simp
    finally show ?thesis using q by simp
  qed
qed


lemma walk_dfs_reversed: "walk self parent True = dfs_reversed (Node self, parent, None)"
  by (simp add: walk_def bfs_def bfs_loop_dfs_reversed)

lemma set_dfs_reversed: "set (dfs_reversed t) = set (dfs t)"
proof (induction t rule: dfs.induct)
  case (1 item parent akey)
  then show ?case by (simp add: dfs.simps dfs_reversed.simps)
qed

lemma level_loop_two:
  "pushed item = [t1, t2] \<Longrightarrow>
   level_loop [(item, p, k)] = (item, p, k) # t1 # t2 # level_loop (pushed (fst t1) @ pushed (fst t2))"
  by simp

lemma dfs_reversed_hd: "dfs_reversed t = t # tl (dfs_reversed t)"
  by (cases t) (simp add: dfs_reversed.simps)

lemma dfs_reversed_two:
  "pushed item = [t1, t2] \<Longrightarrow>
   dfs_reversed (item, p, k) = (item, p, k) # dfs_reversed t2 @ dfs_reversed t1"
  by (simp add: dfs_reversed.simps)

lemma dfs_reversed_children:
  assumes "pushed (fst t) \<noteq> []"
  shows "\<exists>c rest. dfs_reversed t = t # c # rest \<and> c \<in> set (pushed (fst t))"
proof -
  obtain cs c where cs: "pushed (fst t) = cs @ [c]"
    using assms by (metis append_butlast_last_id)
  have "dfs_reversed t = t # dfs_reversed c @ concat (map dfs_reversed (rev cs))"
    by (cases t) (use cs in \<open>simp add: dfs_reversed.simps\<close>)
  then have "dfs_reversed t = t # c # (tl (dfs_reversed c) @ concat (map dfs_reversed (rev cs)))"
    using dfs_reversed_hd [of c] by (metis append_Cons)
  then show ?thesis using cs by auto
qed

lemma matching_concat:
  "matching tys ts =
     concat (map (\<lambda>t. case fst t of Node e \<Rightarrow> if tys (cls e) then [e] else [] | _ \<Rightarrow> []) ts)"
  by (simp add: matching_def case_prod_unfold)

lemma concat_map_filter:
  "(\<And>x. x \<in> set xs \<Longrightarrow> \<not> P x \<Longrightarrow> g x = []) \<Longrightarrow> concat (map g (filter P xs)) = concat (map g xs)"
  by (induction xs) auto

lemma pushed_declared_eq:
  assumes "distinct ks" and "map fst (args e) = filter (\<lambda>k. k \<in> fst ` set (args e)) ks"
  shows "pushed_declared ks (Node e) = pushed (Node e)"
proof -
  let ?f = "\<lambda>k v. map (\<lambda>node. (node, Some e, Some k)) (ensure_list v)"
  let ?g = "\<lambda>k. case map_of (args e) k of None \<Rightarrow> [] | Some v \<Rightarrow> ?f k v"
  have d: "distinct (map fst (args e))" using assms by simp
  have "concat (map ?g ks) = concat (map ?g (filter (\<lambda>k. k \<in> fst ` set (args e)) ks))"
  proof (rule concat_map_filter [symmetric])
    fix k assume "k \<notin> fst ` set (args e)"
    then have "map_of (args e) k = None" by (simp add: map_of_eq_None_iff)
    then show "?g k = []" by simp
  qed
  also have "\<dots> = concat (map ?g (map fst (args e)))" using assms(2) by simp
  also have "\<dots> = concat (map (\<lambda>(k, v). ?f k v) (args e))"
  proof -
    have "?g (fst kv) = (case kv of (k, v) \<Rightarrow> ?f k v)" if kv: "kv \<in> set (args e)" for kv
    proof -
      obtain k v where e: "kv = (k, v)" by (cases kv) auto
      then have "map_of (args e) k = Some v" using kv d by simp
      then show ?thesis by (simp add: e)
    qed
    then have eq: "map (\<lambda>kv. ?g (fst kv)) (args e) = map (\<lambda>(k, v). ?f k v) (args e)"
      by (intro map_cong) auto
    have "concat (map ?g (map fst (args e))) = concat (map (\<lambda>kv. ?g (fst kv)) (args e))"
      by (simp only: map_map comp_def)
    also have "\<dots> = concat (map (\<lambda>(k, v). ?f k v) (args e))"
      by (rule arg_cong [OF eq])
    finally show ?thesis .
  qed
  finally show ?thesis by (simp add: pushed_declared_def pushed_def)
qed

text \<open>
  C4, as stated, fails on the order of the children: the loop of \<open>bfs\<close> takes them from
  \<open>item.args.items()\<close>, the order in which the arguments were given to the constructor,
  and consults no schema. \<open>And(expression=gt, this=eq)\<close> pushes \<open>gt\<close> before \<open>eq\<close>,
  where the declared order of \<open>Binary\<close> has \<open>this\<close> first, and its walk visits \<open>eq\<close>
  first; the node with the same arguments given in declared order visits \<open>gt\<close> first.
\<close>

theorem walk_follows_insertion_order:
  "cls and_swapped = cls and_node \<and> set (args and_swapped) = set (args and_node)
   \<and> pushed (Node and_swapped) =
       [(Node gt_node, Some and_swapped, Some ''expression''), (Node eq_node, Some and_swapped, Some ''this'')]
   \<and> pushed_declared (map fst Binary_arg_types) (Node and_swapped) =
       [(Node eq_node, Some and_swapped, Some ''this''), (Node gt_node, Some and_swapped, Some ''expression'')]
   \<and> pushed (Node and_swapped) \<noteq> pushed_declared (map fst Binary_arg_types) (Node and_swapped)
   \<and> map fst (walk and_swapped None True) =
       [Node and_swapped, Node eq_node, Scalar (Str ''a2''), Scalar (Str ''a1''),
        Node gt_node, Scalar (Str ''b2''), Scalar (Str ''b1'')]
   \<and> map fst (walk and_node None True) =
       [Node and_node, Node gt_node, Scalar (Str ''b2''), Scalar (Str ''b1''),
        Node eq_node, Scalar (Str ''a2''), Scalar (Str ''a1'')]"
proof -
  have p: "pushed (Node and_swapped) =
       [(Node gt_node, Some and_swapped, Some ''expression''), (Node eq_node, Some and_swapped, Some ''this'')]"
    by (simp add: pushed_def and_swapped_def ensure_list_def)
  have q: "pushed_declared (map fst Binary_arg_types) (Node and_swapped) =
       [(Node eq_node, Some and_swapped, Some ''this''), (Node gt_node, Some and_swapped, Some ''expression'')]"
    by (simp add: pushed_declared_def Binary_arg_types_def and_swapped_def ensure_list_def)
  have e: "eq_node \<noteq> gt_node" by (simp add: eq_node_def gt_node_def)
  have d: "dfs_reversed (Node eq_node, x, k) = [(Node eq_node, x, k),
        (Scalar (Str ''a2''), Some eq_node, Some ''expression''),
        (Scalar (Str ''a1''), Some eq_node, Some ''this'')]"
      "dfs_reversed (Node gt_node, x, k) = [(Node gt_node, x, k),
        (Scalar (Str ''b2''), Some gt_node, Some ''expression''),
        (Scalar (Str ''b1''), Some gt_node, Some ''this'')]" for x k
    by (simp_all add: dfs_reversed.simps pushed_def eq_node_def gt_node_def ensure_list_def)
  have w1: "map fst (walk and_swapped None True) =
       [Node and_swapped, Node eq_node, Scalar (Str ''a2''), Scalar (Str ''a1''),
        Node gt_node, Scalar (Str ''b2''), Scalar (Str ''b1'')]"
    unfolding walk_dfs_reversed by (subst dfs_reversed.simps) (simp add: p d)
  have p2: "pushed (Node and_node) =
       [(Node eq_node, Some and_node, Some ''this''), (Node gt_node, Some and_node, Some ''expression'')]"
    by (simp add: pushed_def and_node_def ensure_list_def)
  have w2: "map fst (walk and_node None True) =
       [Node and_node, Node gt_node, Scalar (Str ''b2''), Scalar (Str ''b1''),
        Node eq_node, Scalar (Str ''a2''), Scalar (Str ''a1'')]"
    unfolding walk_dfs_reversed by (subst dfs_reversed.simps) (simp add: p2 d)
  have c: "cls and_swapped = cls and_node \<and> set (args and_swapped) = set (args and_node)"
    by (auto simp: and_swapped_def and_node_def)
  show ?thesis using c p q e w1 w2 by simp
qed

text \<open>
  C4, amended. The default walk is the loop of \<open>bfs\<close> on the queue that holds the root
  triple; the loop stops on the empty queue and otherwise removes the last triple, yields it
  and appends what it pushes: for a node, the values of its arguments in the order of
  \<open>args\<close>, the items of a list one by one; for anything else, nothing. That order is the
  declared order of the keys whenever the keys of \<open>args\<close> follow it. The sequence yielded
  is the depth-first order that visits the children of every node from the last to the
  first; \<open>find_all\<close> gives the nodes of the asked classes in that sequence, and \<open>find\<close>
  the first of them, or \<open>None\<close>. For a root with two children that both have children, the
  second child and all of its subtree come before the first child, and the sequence differs
  from level order.
\<close>

theorem walk_default_order:
  "walk self parent True = bfs_loop [(Node self, parent, None)]
   \<and> bfs_loop [] = []
   \<and> (\<forall>q item p k. bfs_loop (q @ [(item, p, k)]) = (item, p, k) # bfs_loop (q @ pushed item))
   \<and> (\<forall>c a. pushed (Node (Expression c a)) =
         concat (map (\<lambda>kv. map (\<lambda>node. (node, Some (Expression c a), Some (fst kv)))
                              (case snd kv of Lst xs \<Rightarrow> xs | _ \<Rightarrow> [snd kv])) a))
   \<and> pushed NoneV = [] \<and> (\<forall>s. pushed (Scalar s) = []) \<and> (\<forall>xs. pushed (Lst xs) = [])
   \<and> (distinct ks \<longrightarrow> map fst (args self) = filter (\<lambda>k. k \<in> fst ` set (args self)) ks \<longrightarrow>
         pushed (Node self) = pushed_declared ks (Node self))
   \<and> walk self parent True = dfs_reversed (Node self, parent, None)
   \<and> (\<forall>t. dfs_reversed t = t # concat (map dfs_reversed (rev (pushed (fst t)))))
   \<and> find_all self parent tys =
       concat (map (\<lambda>t. case fst t of Node e \<Rightarrow> if tys (cls e) then [e] else [] | _ \<Rightarrow> [])
                   (dfs_reversed (Node self, parent, None)))
   \<and> find self parent tys =
       (case concat (map (\<lambda>t. case fst t of Node e \<Rightarrow> if tys (cls e) then [e] else [] | _ \<Rightarrow> [])
                         (dfs_reversed (Node self, parent, None))) of
          [] \<Rightarrow> None | e # _ \<Rightarrow> Some e)
   \<and> (pushed (Node self) = [t1, t2] \<longrightarrow> pushed (fst t1) \<noteq> [] \<longrightarrow> pushed (fst t2) \<noteq> [] \<longrightarrow>
         walk self parent True = (Node self, parent, None) # dfs_reversed t2 @ dfs_reversed t1
         \<and> walk self parent True \<noteq> level_order self parent)"
proof -
  have w: "walk self parent True = dfs_reversed (Node self, parent, None)"
    by (rule walk_dfs_reversed)
  have two: "walk self parent True = (Node self, parent, None) # dfs_reversed t2 @ dfs_reversed t1
      \<and> walk self parent True \<noteq> level_order self parent"
    if p: "pushed (Node self) = [t1, t2]" and c1: "pushed (fst t1) \<noteq> []"
      and c2: "pushed (fst t2) \<noteq> []"
  proof -
    have a: "walk self parent True = (Node self, parent, None) # dfs_reversed t2 @ dfs_reversed t1"
      using w dfs_reversed_two [OF p] by simp
    obtain c rest where c: "dfs_reversed t2 = t2 # c # rest" "c \<in> set (pushed (fst t2))"
      using dfs_reversed_children [OF c2] by blast
    have l: "level_order self parent =
        (Node self, parent, None) # t1 # t2 # level_loop (pushed (fst t1) @ pushed (fst t2))"
      unfolding level_order_def by (rule level_loop_two [OF p])
    have "size (fst c) < size (fst t2)" using c(2) by (rule pushed_smaller)
    then have "c \<noteq> t2" by auto
    then have "walk self parent True \<noteq> level_order self parent"
      using a c(1) l by auto
    then show ?thesis using a by simp
  qed
  have b: "walk self parent True = bfs_loop [(Node self, parent, None)]"
    by (simp add: walk_def bfs_def)
  have s: "\<forall>q item p k. bfs_loop (q @ [(item, p, k)]) = (item, p, k) # bfs_loop (q @ pushed item)"
    by (simp add: bfs_loop_snoc)
  have pn: "\<forall>c a. pushed (Node (Expression c a)) =
         concat (map (\<lambda>kv. map (\<lambda>node. (node, Some (Expression c a), Some (fst kv)))
                              (case snd kv of Lst xs \<Rightarrow> xs | _ \<Rightarrow> [snd kv])) a)"
    by (simp add: pushed_def ensure_list_def case_prod_unfold)
  have po: "pushed NoneV = [] \<and> (\<forall>s. pushed (Scalar s) = []) \<and> (\<forall>xs. pushed (Lst xs) = [])"
    by (simp add: pushed_def)
  have pd: "pushed (Node self) = pushed_declared ks (Node self)"
    if "distinct ks" "map fst (args self) = filter (\<lambda>k. k \<in> fst ` set (args self)) ks"
    using pushed_declared_eq [OF that] by simp
  have d: "\<forall>t. dfs_reversed t = t # concat (map dfs_reversed (rev (pushed (fst t))))"
    using dfs_reversed_fst by blast
  have f: "find_all self parent tys =
       concat (map (\<lambda>t. case fst t of Node e \<Rightarrow> if tys (cls e) then [e] else [] | _ \<Rightarrow> [])
                   (dfs_reversed (Node self, parent, None)))"
    by (simp add: find_all_def w matching_concat)
  have g: "find self parent tys =
       (case concat (map (\<lambda>t. case fst t of Node e \<Rightarrow> if tys (cls e) then [e] else [] | _ \<Rightarrow> [])
                         (dfs_reversed (Node self, parent, None))) of
          [] \<Rightarrow> None | e # _ \<Rightarrow> Some e)"
    unfolding find_def f ..
  show ?thesis
    apply (intro conjI)
    apply (rule b)
    apply (rule bfs_loop_Nil)
    apply (rule s)
    apply (rule pn)
    apply (rule po [THEN conjunct1])
    apply (rule po [THEN conjunct2, THEN conjunct1])
    apply (rule po [THEN conjunct2, THEN conjunct2])
    apply (intro impI, erule (1) pd)
    apply (rule w)
    apply (rule d)
    apply (rule f)
    apply (rule g)
    apply (intro impI, rule two, assumption+)
    done
qed

theorem walk_default_order_witness:
  "pushed (Node and_node) =
     [(Node eq_node, Some and_node, Some ''this''), (Node gt_node, Some and_node, Some ''expression'')]
   \<and> pushed (Node eq_node) \<noteq> [] \<and> pushed (Node gt_node) \<noteq> []
   \<and> pushed (Node and_node) = pushed_declared (map fst Binary_arg_types) (Node and_node)
   \<and> map fst (walk and_node None True) =
       [Node and_node, Node gt_node, Scalar (Str ''b2''), Scalar (Str ''b1''),
        Node eq_node, Scalar (Str ''a2''), Scalar (Str ''a1'')]
   \<and> map fst (level_order and_node None) =
       [Node and_node, Node eq_node, Node gt_node, Scalar (Str ''a1''), Scalar (Str ''a2''),
        Scalar (Str ''b1''), Scalar (Str ''b2'')]
   \<and> walk and_node None True \<noteq> level_order and_node None
   \<and> find_all and_node None (\<lambda>c. c = ''EQ'' \<or> c = ''GT'') = [gt_node, eq_node]
   \<and> find and_node None (\<lambda>c. c = ''EQ'' \<or> c = ''GT'') = Some gt_node"
proof -
  let ?t1 = "(Node eq_node, Some and_node, Some ''this'')"
  let ?t2 = "(Node gt_node, Some and_node, Some ''expression'')"
  let ?tys = "\<lambda>c. c = ''EQ'' \<or> c = ''GT''"
  let ?m = "\<lambda>t :: triple. case fst t of Node e \<Rightarrow> if ?tys (cls e) then [e] else [] | _ \<Rightarrow> []"
  have p: "pushed (Node and_node) = [?t1, ?t2]"
    by (simp add: pushed_def and_node_def ensure_list_def)
  have c: "pushed (fst ?t1) \<noteq> []" "pushed (fst ?t2) \<noteq> []"
    by (simp_all add: pushed_def eq_node_def gt_node_def ensure_list_def)
  have k: "distinct (map fst Binary_arg_types)"
    "map fst (args and_node) =
       filter (\<lambda>k. k \<in> fst ` set (args and_node)) (map fst Binary_arg_types)"
    by (simp_all add: Binary_arg_types_def and_node_def)
  have d1: "dfs_reversed ?t1 = [?t1, (Scalar (Str ''a2''), Some eq_node, Some ''expression''),
      (Scalar (Str ''a1''), Some eq_node, Some ''this'')]"
    by (simp add: dfs_reversed.simps pushed_def eq_node_def ensure_list_def)
  have d2: "dfs_reversed ?t2 = [?t2, (Scalar (Str ''b2''), Some gt_node, Some ''expression''),
      (Scalar (Str ''b1''), Some gt_node, Some ''this'')]"
    by (simp add: dfs_reversed.simps pushed_def gt_node_def ensure_list_def)
  have l: "map fst (level_order and_node None) =
       [Node and_node, Node eq_node, Node gt_node, Scalar (Str ''a1''), Scalar (Str ''a2''),
        Scalar (Str ''b1''), Scalar (Str ''b2'')]"
    by (simp add: level_order_def p) (simp add: pushed_def eq_node_def gt_node_def ensure_list_def)
  note th = walk_default_order [of and_node None "map fst Binary_arg_types" ?tys ?t1 ?t2]
  from th p c have w: "walk and_node None True = (Node and_node, None, None) # dfs_reversed ?t2 @ dfs_reversed ?t1"
    and n: "walk and_node None True \<noteq> level_order and_node None"
    by blast+
  from th k have pd: "pushed (Node and_node) = pushed_declared (map fst Binary_arg_types) (Node and_node)"
    by blast
  from th have wd: "walk and_node None True = dfs_reversed (Node and_node, None, None)"
    by blast
  from th have f: "find_all and_node None ?tys = concat (map ?m (dfs_reversed (Node and_node, None, None)))"
    and g: "find and_node None ?tys =
      (case concat (map ?m (dfs_reversed (Node and_node, None, None))) of [] \<Rightarrow> None | e # _ \<Rightarrow> Some e)"
    by blast+
  have m: "concat (map ?m (dfs_reversed (Node and_node, None, None))) = [gt_node, eq_node]"
    unfolding wd [symmetric] w d1 d2 by (simp add: and_node_def eq_node_def gt_node_def)
  show ?thesis using p c pd l n f g m by (simp add: w d1 d2)
qed

section \<open>Objects in a store: \<open>parent\<close>, \<open>depth\<close>, \<open>transform\<close>\<close>

text \<open>
  \<open>parent\<close>, \<open>depth\<close> and \<open>transform\<close> depend on which object a reference denotes, and
  \<open>transform\<close> changes objects in place. Here the nodes live in a store: an address is an
  index into a list of objects, a new object is appended, and a destroyed object leaves
  \<open>None\<close> at its address, which is never used again. A value held by a node is \<open>None\<close>,
  a scalar (tokens, strings and flags, taken as values), a reference to a node, or a list of
  values (a list is taken as a value, not as a shared object).
\<close>

type_synonym addr = nat

datatype rval = RNone | RScalar scalar | Ref addr | RList "rval list"

text \<open>
  An \<open>Expression\<close> object: its class, \<open>args\<close>, \<open>_parent\<close> (\<open>None\<close> or a weak reference,
  here the address it refers to) and \<open>arg_key\<close>.
\<close>

record object =
  obj_cls :: string
  obj_args :: "(string \<times> rval) list"
  obj_parent :: "addr option"
  obj_arg_key :: "string option"

type_synonym store = "object option list"

definition lookup :: "store \<Rightarrow> addr \<Rightarrow> object option" where
  "lookup h a = (if a < length h then h ! a else None)"


definition destroy :: "store \<Rightarrow> addr \<Rightarrow> store" where
  "destroy h a = h[a := None]"

text \<open>
  The property \<open>parent\<close>: \<open>self._parent() if self._parent else None\<close>. Calling a weak
  reference gives the object, or \<open>None\<close> once the object has been destroyed.
\<close>

definition parent :: "store \<Rightarrow> addr \<Rightarrow> addr option" where
  "parent h self =
     (case lookup h self of
        None \<Rightarrow> None
      | Some ob \<Rightarrow> (case obj_parent ob of
                      None \<Rightarrow> None
                    | Some p \<Rightarrow> (case lookup h p of None \<Rightarrow> None | Some _ \<Rightarrow> Some p)))"

text \<open>
The setter: \<open>self._parent = weakref.ref(new_parent)\<close>.
\<close>

definition set_parent :: "store \<Rightarrow> addr \<Rightarrow> addr \<Rightarrow> store" where
  "set_parent h self new_parent =
     (case lookup h self of
        None \<Rightarrow> h
      | Some ob \<Rightarrow> h[self := Some (ob\<lparr>obj_parent := Some new_parent\<rparr>)])"

text \<open>
  The property \<open>depth\<close> calls itself on the parent. The first argument is the number of
  nested calls the interpreter still allows; when none is left, Python raises
  \<open>RecursionError\<close>.
\<close>

primrec depth :: "nat \<Rightarrow> store \<Rightarrow> addr \<Rightarrow> error + nat" where
  "depth 0 h self = Inl RecursionError"
| "depth (Suc n) h self =
     (case parent h self of
        None \<Rightarrow> Inr 0
      | Some p \<Rightarrow> (case depth n h p of Inl e \<Rightarrow> Inl e | Inr d \<Rightarrow> Inr (d + 1)))"

text \<open>
  A chain of parents: \<open>ps\<close> lists the parent of \<open>a\<close>, the parent of that one, and so on,
  up to a node that has no resolvable parent.
\<close>

fun parent_chain :: "store \<Rightarrow> addr \<Rightarrow> addr list \<Rightarrow> bool" where
  "parent_chain h a [] = (parent h a = None)"
| "parent_chain h a (p # ps) = (parent h a = Some p \<and> parent_chain h p ps)"

text \<open>
  An example: \<open>Select(expressions=[Alias(this=Column(this=a))])\<close> at the addresses 0, 1
  and 2, with the parents of 1 and 2 set.
\<close>

definition mk_node :: "string \<Rightarrow> (string \<times> rval) list \<Rightarrow> object" where
  "mk_node c a = \<lparr>obj_cls = c, obj_args = a, obj_parent = None, obj_arg_key = None\<rparr>"

definition store1 :: store where
  "store1 = set_parent (set_parent
     [Some (mk_node ''Select'' [(''expressions'', RList [Ref 1])]),
      Some (mk_node ''Alias'' [(''this'', Ref 2)]),
      Some (mk_node ''Column'' [(''this'', RScalar (Tok (Token ''a'' ''VAR'')))])] 1 0) 2 1"

subsection \<open>Properties of \<open>depth\<close>\<close>

lemma depth_chain: "parent_chain h a ps \<Longrightarrow> length ps < n \<Longrightarrow> depth n h a = Inr (length ps)"
proof (induction ps arbitrary: a n)
  case Nil
  then show ?case by (cases n) simp_all
next
  case (Cons p ps)
  then obtain m where n: "n = Suc m" by (cases n) auto
  with Cons show ?case by simp
qed

lemma depth_mono: "depth n h a = Inr d \<Longrightarrow> n \<le> m \<Longrightarrow> depth m h a = Inr d"
proof (induction n arbitrary: m a d)
  case 0
  then show ?case by simp
next
  case (Suc n)
  then obtain m' where m: "m = Suc m'" and le: "n \<le> m'" by (cases m) auto
  show ?case
  proof (cases "parent h a")
    case None
    with Suc.prems show ?thesis by (simp add: m)
  next
    case (Some p)
    with Suc.prems obtain d' where d': "depth n h p = Inr d'" "d = d' + 1"
      by (auto split: sum.splits)
    from Suc.IH [OF d'(1) le] Some d'(2) show ?thesis by (simp add: m)
  qed
qed

text \<open>
  C7. The depth of a node with no resolvable parent is 0. When a node has a parent and
  its depth is returned, the parent's depth is returned too and the node's depth is one
  more. Along a chain of parents that ends at a node without resolvable parent, the depth
  is returned and is the length of the chain, as soon as the chain is shorter than the
  number of nested calls allowed. A node whose weak reference points to a destroyed object
  has no parent (no error is raised) and depth 0.
\<close>

theorem depth_parent:
  "(parent h a = None \<longrightarrow> depth (Suc n) h a = Inr 0)
   \<and> (parent h a = Some p \<longrightarrow> depth m h a = Inr d \<longrightarrow> (\<exists>dp. depth m h p = Inr dp \<and> d = dp + 1))
   \<and> (parent_chain h a ps \<longrightarrow> length ps < m \<longrightarrow> depth m h a = Inr (length ps))
   \<and> (lookup h a = Some ob \<longrightarrow> obj_parent ob = Some q \<longrightarrow> lookup h q = None \<longrightarrow>
        parent h a = None \<and> depth (Suc n) h a = Inr 0)"
proof -
  have 1: "depth (Suc n) h a = Inr 0" if "parent h a = None"
    using that by simp
  have 2: "\<exists>dp. depth m h p = Inr dp \<and> d = dp + 1"
    if "parent h a = Some p" "depth m h a = Inr d"
  proof (cases m)
    case 0
    with that show ?thesis by simp
  next
    case (Suc k)
    with that obtain dp where dp: "depth k h p = Inr dp" "d = dp + 1"
      by (auto split: sum.splits)
    from depth_mono [OF dp(1), of m] Suc dp(2) show ?thesis by simp
  qed
  have 4: "parent h a = None"
    if "lookup h a = Some ob" "obj_parent ob = Some q" "lookup h q = None"
    using that by (simp add: parent_def)
  have 3: "depth m h a = Inr (length ps)" if "parent_chain h a ps" "length ps < m"
    using that by (rule depth_chain)
  show ?thesis
    apply (intro conjI impI)
        apply (erule 1)
       apply (erule (1) 2)
      apply (erule (1) 3)
     apply (erule (2) 4)
    apply (rule 1)
    apply (erule (2) 4)
    done
qed

theorem depth_parent_witness:
  "parent store1 2 = Some 1 \<and> depth 10 store1 2 = Inr 2 \<and> depth 10 store1 1 = Inr 1
   \<and> depth 10 store1 0 = Inr 0 \<and> parent_chain store1 2 [1, 0]
   \<and> lookup (destroy store1 1) 2 =
       Some (mk_node ''Column'' [(''this'', RScalar (Tok (Token ''a'' ''VAR'')))]\<lparr>obj_parent := Some 1\<rparr>)
   \<and> lookup (destroy store1 1) 1 = None
   \<and> parent (destroy store1 1) 2 = None \<and> depth 10 (destroy store1 1) 2 = Inr 0"
proof -
  let ?col = "mk_node ''Column'' [(''this'', RScalar (Tok (Token ''a'' ''VAR'')))]\<lparr>obj_parent := Some 1\<rparr>"
  have c: "parent_chain store1 2 [1, 0]"
    by (simp add: store1_def parent_def set_parent_def lookup_def mk_node_def)
  have p: "parent store1 2 = Some 1" "parent store1 0 = None"
    by (simp_all add: store1_def parent_def set_parent_def lookup_def mk_node_def)
  have l: "lookup (destroy store1 1) 2 = Some ?col" "obj_parent ?col = Some 1"
    "lookup (destroy store1 1) 1 = None"
    by (simp_all add: store1_def destroy_def set_parent_def lookup_def mk_node_def)
  note t = depth_parent [of store1 2 9 1 10 2 "[1, 0]"]
  note t0 = depth_parent [of store1 0 9]
  note t1 = depth_parent [of store1 1 9 0 10 1 "[0]"]
  note td = depth_parent [of "destroy store1 1" 2 9 _ _ _ _ ?col 1]
  have d2: "depth 10 store1 2 = Inr 2" using t c by simp
  have d1: "depth 10 store1 1 = Inr 1" using t p(1) d2 by auto
  have d0: "depth 10 store1 0 = Inr 0" using t0 p(2) by simp
  have dd: "parent (destroy store1 1) 2 = None \<and> depth 10 (destroy store1 1) 2 = Inr 0"
    using td l by simp
  show ?thesis using c p d2 d1 d0 dd l by simp
qed

subsection \<open>\<open>transform\<close>\<close>

text \<open>
  The state of a pass: the store, and a log of the calls of the rewrite function, each with
  the node passed and the value returned. The log is not part of the program; the claims
  about which nodes the function is invoked on are stated on it. A rewrite function takes
  a node and may change the store, allocate nodes in it, and return any value.
\<close>

record state =
  objs :: store
  calls :: "(addr \<times> rval) list"

type_synonym rewrite = "addr \<Rightarrow> store \<Rightarrow> rval \<times> store"

type_synonym 'a outcome = "(error + 'a) \<times> state"

text \<open>
  \<open>deepcopy(self)\<close>. A node is copied to a new object, entered in the memo before its
  contents are copied, and found there when it is met again. \<open>args\<close> is copied item by
  item, a list value element by element, a scalar is kept; the weak reference \<open>_parent\<close>
  is atomic for \<open>deepcopy\<close>, so the copy refers to the same parent as the original;
  class and \<open>arg_key\<close> are kept. The first argument of \<open>deepcopy_node\<close> is the number of
  nested calls still allowed.
\<close>

type_synonym memo = "(addr \<times> addr) list"

type_synonym copier = "addr \<Rightarrow> memo \<times> store \<Rightarrow> error + addr \<times> memo \<times> store"

fun copy_val :: "copier \<Rightarrow> rval \<Rightarrow> memo \<times> store \<Rightarrow> error + rval \<times> memo \<times> store"
  and copy_vals :: "copier \<Rightarrow> rval list \<Rightarrow> memo \<times> store \<Rightarrow> error + rval list \<times> memo \<times> store" where
  "copy_val rec RNone s = Inr (RNone, s)"
| "copy_val rec (RScalar x) s = Inr (RScalar x, s)"
| "copy_val rec (Ref a) s = (case rec a s of Inl e \<Rightarrow> Inl e | Inr (a', s') \<Rightarrow> Inr (Ref a', s'))"
| "copy_val rec (RList xs) s =
     (case copy_vals rec xs s of Inl e \<Rightarrow> Inl e | Inr (ys, s') \<Rightarrow> Inr (RList ys, s'))"
| "copy_vals rec [] s = Inr ([], s)"
| "copy_vals rec (x # xs) s =
     (case copy_val rec x s of Inl e \<Rightarrow> Inl e
      | Inr (y, s') \<Rightarrow> (case copy_vals rec xs s' of Inl e \<Rightarrow> Inl e
                        | Inr (ys, s'') \<Rightarrow> Inr (y # ys, s'')))"

fun copy_items :: "copier \<Rightarrow> (string \<times> rval) list \<Rightarrow> memo \<times> store
    \<Rightarrow> error + (string \<times> rval) list \<times> memo \<times> store" where
  "copy_items rec [] s = Inr ([], s)"
| "copy_items rec ((k, v) # kvs) s =
     (case copy_val rec v s of Inl e \<Rightarrow> Inl e
      | Inr (v', s') \<Rightarrow> (case copy_items rec kvs s' of Inl e \<Rightarrow> Inl e
                         | Inr (kvs', s'') \<Rightarrow> Inr ((k, v') # kvs', s'')))"

primrec deepcopy_node :: "nat \<Rightarrow> copier" where
  "deepcopy_node 0 a s = Inl RecursionError"
| "deepcopy_node (Suc n) a s =
     (case map_of (fst s) a of
        Some a' \<Rightarrow> Inr (a', s)
      | None \<Rightarrow>
          (case lookup (snd s) a of
             None \<Rightarrow> Inl NoObject
           | Some ob \<Rightarrow>
               (let a' = length (snd s);
                    s1 = ((a, a') # fst s, snd s @ [Some (ob\<lparr>obj_args := []\<rparr>)])
                in case copy_items (deepcopy_node n) (obj_args ob) s1 of
                     Inl e \<Rightarrow> Inl e
                   | Inr (args', m2, h2) \<Rightarrow>
                       Inr (a', m2, h2[a' := Some (ob\<lparr>obj_args := args'\<rparr>)]))))"

definition deepcopy :: "nat \<Rightarrow> addr \<Rightarrow> store \<Rightarrow> error + addr \<times> store" where
  "deepcopy n a h =
     (case deepcopy_node n a ([], h) of Inl e \<Rightarrow> Inl e | Inr (a', m, h') \<Rightarrow> Inr (a', h'))"

text \<open>
  \<open>new_child_node.parent = new_node\<close>: on a node, the setter; on a token, an attribute
  of an object of the tokenizer, with no effect on the tree; a string, a flag, a list and
  \<open>None\<close> accept no attribute.
\<close>

definition assign_parent :: "rval \<Rightarrow> addr \<Rightarrow> store \<Rightarrow> error + store" where
  "assign_parent new_child_node new_node h =
     (case new_child_node of
        Ref c \<Rightarrow> (case lookup h c of None \<Rightarrow> Inl NoObject
                  | Some _ \<Rightarrow> Inr (set_parent h c new_node))
      | RScalar (Tok t) \<Rightarrow> Inr h
      | _ \<Rightarrow> Inl AttributeError)"

text \<open>
  The loop \<open>for cn in child_nodes\<close>: a child that is a node is transformed with
  \<open>copy=False\<close> and the result gets the enclosing node as parent; any other child is
  kept as it is. \<open>rec\<close> is the recursive call.
\<close>

fun transform_children :: "(addr \<Rightarrow> state \<Rightarrow> rval outcome) \<Rightarrow> addr \<Rightarrow> rval list \<Rightarrow> rval list
    \<Rightarrow> state \<Rightarrow> rval list outcome" where
  "transform_children rec new_node [] new_child_nodes st = (Inr new_child_nodes, st)"
| "transform_children rec new_node (cn # cns) new_child_nodes st =
     (case cn of
        Ref c \<Rightarrow>
          (case rec c st of
             (Inl e, st1) \<Rightarrow> (Inl e, st1)
           | (Inr new_child_node, st1) \<Rightarrow>
               (case assign_parent new_child_node new_node (objs st1) of
                  Inl e \<Rightarrow> (Inl e, st1)
                | Inr h \<Rightarrow> transform_children rec new_node cns
                             (new_child_nodes @ [new_child_node]) (st1\<lparr>objs := h\<rparr>)))
      | _ \<Rightarrow> transform_children rec new_node cns (new_child_nodes @ [cn]) st)"

text \<open>
\<open>new_node.args[k] = v\<close>.
\<close>

definition set_arg :: "store \<Rightarrow> addr \<Rightarrow> string \<Rightarrow> rval \<Rightarrow> error + store" where
  "set_arg h a k v =
     (case lookup h a of None \<Rightarrow> Inl NoObject
      | Some ob \<Rightarrow> Inr (h[a := Some (ob\<lparr>obj_args := dict_set (obj_args ob) k v\<rparr>)]))"

text \<open>
  The loop \<open>for k, v in new_node.args.items()\<close>, by position: each step reads the dict as
  it is then, fails with \<open>RuntimeError\<close> when its size is no longer the size \<open>n\<close> it had
  when the loop began, and otherwise takes the item at the position, transforms its
  children and writes the slot back, as a list when the value was a list and as the single
  element \<open>new_child_nodes[0]\<close> otherwise.
\<close>

fun transform_args :: "(addr \<Rightarrow> state \<Rightarrow> rval outcome) \<Rightarrow> addr \<Rightarrow> nat \<Rightarrow> nat list
    \<Rightarrow> state \<Rightarrow> unit outcome" where
  "transform_args rec new_node n [] st =
     (case lookup (objs st) new_node of
        None \<Rightarrow> (Inl NoObject, st)
      | Some ob \<Rightarrow> if length (obj_args ob) \<noteq> n then (Inl RuntimeError, st) else (Inr (), st))"
| "transform_args rec new_node n (i # is) st =
     (case lookup (objs st) new_node of
        None \<Rightarrow> (Inl NoObject, st)
      | Some ob \<Rightarrow>
          if length (obj_args ob) \<noteq> n then (Inl RuntimeError, st)
          else if i \<ge> n then (Inr (), st)
          else (case obj_args ob ! i of (k, v) \<Rightarrow>
            (case transform_children rec new_node (case v of RList xs \<Rightarrow> xs | _ \<Rightarrow> [v]) [] st of
               (Inl e, st1) \<Rightarrow> (Inl e, st1)
             | (Inr new_child_nodes, st1) \<Rightarrow>
                 (case (case v of RList xs \<Rightarrow> Inr (RList new_child_nodes)
                        | _ \<Rightarrow> (case new_child_nodes of [] \<Rightarrow> Inl IndexError | x # _ \<Rightarrow> Inr x)) of
                    Inl e \<Rightarrow> (Inl e, st1)
                  | Inr new_v \<Rightarrow>
                      (case set_arg (objs st1) new_node k new_v of
                         Inl e \<Rightarrow> (Inl e, st1)
                       | Inr h \<Rightarrow> transform_args rec new_node n is (st1\<lparr>objs := h\<rparr>))))))"

text \<open>
  \<open>transform(self, fun, copy)\<close>. The first argument is the number of nested calls still
  allowed; with none left Python raises \<open>RecursionError\<close>. An error is returned together
  with the state reached.
\<close>

primrec transform :: "nat \<Rightarrow> rewrite \<Rightarrow> addr \<Rightarrow> bool \<Rightarrow> state \<Rightarrow> rval outcome" where
  "transform 0 fn self copy st = (Inl RecursionError, st)"
| "transform (Suc n) fn self copy st =
     (case (if copy then deepcopy n self (objs st) else Inr (self, objs st)) of
        Inl e \<Rightarrow> (Inl e, st)
      | Inr (node, h1) \<Rightarrow>
          (case fn node h1 of (new_node, h2) \<Rightarrow>
             (let st2 = \<lparr>objs = h2, calls = calls st @ [(node, new_node)]\<rparr>
              in if new_node = RNone then (Inl ValueError, st2)
                 else if new_node \<noteq> Ref node then (Inr new_node, st2)
                 else (case lookup h2 node of
                         None \<Rightarrow> (Inl NoObject, st2)
                       | Some ob \<Rightarrow>
                           (case transform_args (\<lambda>cn. transform n fn cn False) node
                                   (length (obj_args ob)) [0..<length (obj_args ob)] st2 of
                              (Inl e, st3) \<Rightarrow> (Inl e, st3)
                            | (Inr _, st3) \<Rightarrow> (Inr (Ref node), st3))))))"

text \<open>
Rewrite functions and a store used in the examples; the store holds \<open>Paren(this=Column(this=a))\<close>.
\<close>

definition identity :: rewrite where
  "identity a h = (Ref a, h)"

definition columns_to_None :: rewrite where
  "columns_to_None a h = (case lookup h a of
      Some ob \<Rightarrow> if obj_cls ob = ''Column'' then (RNone, h) else (Ref a, h)
    | None \<Rightarrow> (Ref a, h))"

definition paren_store :: store where
  "paren_store =
     [Some (mk_node ''Paren'' [(''this'', Ref 1)]),
      Some (mk_node ''Column'' [(''this'', RScalar (Tok (Token ''a'' ''VAR'')))])]"




subsection \<open>The error of \<open>transform\<close>\<close>

text \<open>
  A state is clean when no logged call returned \<open>None\<close>; a recursive call is sound when,
  from a clean state, it ends with \<open>ValueError\<close> exactly when it leaves a state that is not
  clean.
\<close>

definition clean :: "state \<Rightarrow> bool" where
  "clean st = (\<forall>c \<in> set (calls st). snd c \<noteq> RNone)"

definition sound :: "(addr \<Rightarrow> state \<Rightarrow> rval outcome) \<Rightarrow> bool" where
  "sound rec = (\<forall>a st res st'. clean st \<longrightarrow> rec a st = (res, st') \<longrightarrow>
      (res = Inl ValueError) = (\<not> clean st'))"

lemma clean_objs_update [simp]: "clean (st\<lparr>objs := h\<rparr>) = clean st"
  by (simp add: clean_def)

lemma assign_parent_no_ValueError: "assign_parent v p h \<noteq> Inl ValueError"
  by (auto simp: assign_parent_def split: rval.splits scalar.splits option.splits)

lemma set_arg_no_ValueError: "set_arg h a k v \<noteq> Inl ValueError"
  by (auto simp: set_arg_def split: option.splits)

lemma transform_children_sound:
  assumes "sound rec"
  shows "clean st \<Longrightarrow> transform_children rec p cns acc st = (res, st') \<Longrightarrow>
         (res = Inl ValueError) = (\<not> clean st')"
proof (induction cns arbitrary: acc st)
  case Nil
  then show ?case by auto
next
  case (Cons cn cns)
  show ?case
  proof (cases cn)
    case (Ref c)
    obtain r1 st1 where r: "rec c st = (r1, st1)" by (cases "rec c st")
    from assms Cons.prems(1) r have s1: "(r1 = Inl ValueError) = (\<not> clean st1)"
      unfolding sound_def by blast
    show ?thesis
    proof (cases r1)
      case (Inl e)
      with Cons.prems(2) Ref r s1 show ?thesis by auto
    next
      case (Inr v)
      with s1 have c1: "clean st1" by simp
      show ?thesis
      proof (cases "assign_parent v p (objs st1)")
        case (Inl e)
        with Cons.prems(2) Ref r Inr c1 assign_parent_no_ValueError [of v p "objs st1"]
        show ?thesis by auto
      next
        case h: (Inr h)
        have "transform_children rec p cns (acc @ [v]) (st1\<lparr>objs := h\<rparr>) = (res, st')"
          using Cons.prems(2) Ref r Inr h by simp
        then show ?thesis
          using Cons.IH [of "st1\<lparr>objs := h\<rparr>" "acc @ [v]"] c1 by simp
      qed
    qed
  next
    case RNone
    with Cons show ?thesis by simp
  next
    case (RScalar x)
    with Cons show ?thesis by simp
  next
    case (RList xs)
    with Cons show ?thesis by simp
  qed
qed


lemma transform_args_sound:
  assumes "sound rec"
  shows "clean st \<Longrightarrow> transform_args rec p n is st = (res, st') \<Longrightarrow>
         (res = Inl ValueError) = (\<not> clean st')"
proof (induction "is" arbitrary: st)
  case Nil
  then show ?case by (auto split: option.splits if_splits)
next
  case (Cons i "is")
  show ?case
  proof (cases "lookup (objs st) p")
    case None
    with Cons.prems show ?thesis by auto
  next
    case (Some ob)
    show ?thesis
    proof (cases "length (obj_args ob) \<noteq> n \<or> i \<ge> n")
      case True
      with Cons.prems Some show ?thesis by (auto split: if_splits)
    next
      case False
      obtain k v where kv: "obj_args ob ! i = (k, v)" by (cases "obj_args ob ! i")
      let ?cns = "case v of RList xs \<Rightarrow> xs | _ \<Rightarrow> [v]"
      obtain r1 st1 where r: "transform_children rec p ?cns [] st = (r1, st1)"
        by (cases "transform_children rec p ?cns [] st")
      have s1: "(r1 = Inl ValueError) = (\<not> clean st1)"
        using transform_children_sound [OF assms Cons.prems(1) r] .
      show ?thesis
      proof (cases r1)
        case (Inl e)
        with Cons.prems(2) Some False kv r s1 show ?thesis by auto
      next
        case (Inr ncs)
        with s1 have c1: "clean st1" by simp
        let ?nv = "case v of RList xs \<Rightarrow> Inr (RList ncs)
                   | _ \<Rightarrow> (case ncs of [] \<Rightarrow> Inl IndexError | x # _ \<Rightarrow> Inr x)"
        have nv: "?nv \<noteq> Inl ValueError"
          by (auto split: rval.splits list.splits)
        show ?thesis
        proof (cases ?nv)
          case e: (Inl e)
          then have "res = Inl e" "st' = st1"
            using Cons.prems(2) Some False kv r Inr by auto
          with c1 nv e show ?thesis by auto
        next
          case new_v: (Inr new_v)
          show ?thesis
          proof (cases "set_arg (objs st1) p k new_v")
            case e: (Inl e)
            then have "res = Inl e" "st' = st1"
              using Cons.prems(2) Some False kv r Inr new_v by auto
            with c1 set_arg_no_ValueError [of "objs st1" p k new_v] e show ?thesis by auto
          next
            case h: (Inr h)
            have "transform_args rec p n is (st1\<lparr>objs := h\<rparr>) = (res, st')"
              using Cons.prems(2) Some False kv r Inr new_v h by auto
            then show ?thesis using Cons.IH [of "st1\<lparr>objs := h\<rparr>"] c1 by simp
          qed
        qed
      qed
    qed
  qed
qed


lemma copy_vals_no_ValueError:
  assumes "\<And>x s. x \<in> set xs \<Longrightarrow> copy_val rec x s \<noteq> Inl ValueError"
  shows "copy_vals rec xs s \<noteq> Inl ValueError"
  using assms
proof (induction xs arbitrary: s)
  case Nil
  then show ?case by simp
next
  case (Cons x xs)
  have "copy_val rec x s \<noteq> Inl ValueError" using Cons.prems by simp
  moreover have "copy_vals rec xs s' \<noteq> Inl ValueError" for s'
    using Cons by simp
  ultimately show ?case by (auto split: sum.splits)
qed

lemma copy_val_no_ValueError:
  assumes "\<And>a s. rec a s \<noteq> Inl ValueError"
  shows "copy_val rec v s \<noteq> Inl ValueError"
proof (induction v arbitrary: s)
  case (Ref a)
  then show ?case using assms [of a s] by (auto split: sum.splits)
next
  case (RList xs)
  have "copy_vals rec xs s \<noteq> Inl ValueError"
    by (rule copy_vals_no_ValueError) (rule RList)
  then show ?case by (auto split: sum.splits)
qed simp_all

lemma copy_items_no_ValueError:
  assumes "\<And>a s. rec a s \<noteq> Inl ValueError"
  shows "copy_items rec kvs s \<noteq> Inl ValueError"
proof (induction kvs arbitrary: s)
  case Nil
  then show ?case by simp
next
  case (Cons kv kvs)
  obtain k v where kv: "kv = (k, v)" by (cases kv)
  show ?case
    using copy_val_no_ValueError [of rec v s, OF assms] Cons.IH
    by (auto simp: kv split: sum.splits)
qed

lemma deepcopy_node_no_ValueError: "deepcopy_node n a s \<noteq> Inl ValueError"
proof (induction n arbitrary: a s)
  case 0
  then show ?case by simp
next
  case (Suc n)
  have "copy_items (deepcopy_node n) kvs s' \<noteq> Inl ValueError" for kvs s'
    by (rule copy_items_no_ValueError) (rule Suc.IH)
  then show ?case by (auto simp: Let_def split: option.splits sum.splits)
qed

lemma deepcopy_no_ValueError: "deepcopy n a h \<noteq> Inl ValueError"
  using deepcopy_node_no_ValueError [of n a "([], h)"]
  by (auto simp: deepcopy_def split: sum.splits)

lemma transform_sound:
  "clean st \<Longrightarrow> transform n fn self copy st = (res, st') \<Longrightarrow>
   (res = Inl ValueError) = (\<not> clean st')"
proof (induction n arbitrary: self copy st res st')
  case 0
  then show ?case by auto
next
  case (Suc n)
  have rec: "sound (\<lambda>cn. transform n fn cn False)"
    unfolding sound_def using Suc.IH by blast
  let ?start = "if copy then deepcopy n self (objs st) else Inr (self, objs st)"
  show ?case
  proof (cases ?start)
    case (Inl e)
    then have "e \<noteq> ValueError"
      using deepcopy_no_ValueError [of n self "objs st"] by (auto split: if_splits)
    with Inl Suc.prems show ?thesis by auto
  next
    case (Inr p)
    obtain node h1 where p: "p = (node, h1)" by (cases p)
    obtain new_node h2 where f: "fn node h1 = (new_node, h2)" by (cases "fn node h1")
    let ?st2 = "\<lparr>objs = h2, calls = calls st @ [(node, new_node)]\<rparr>"
    have c2: "clean ?st2 = (new_node \<noteq> RNone)"
      using Suc.prems(1) by (auto simp: clean_def)
    consider "new_node = RNone" | "new_node \<noteq> RNone" "new_node \<noteq> Ref node"
      | "new_node = Ref node" by blast
    then show ?thesis
    proof cases
      case 1
      then have "res = Inl ValueError" "st' = ?st2"
        using Suc.prems(2) Inr p f by auto
      with c2 1 show ?thesis by simp
    next
      case 2
      then have "res = Inr new_node" "st' = ?st2"
        using Suc.prems(2) Inr p f by auto
      with c2 2 show ?thesis by simp
    next
      case 3
      then have c: "clean ?st2" using c2 by simp
      show ?thesis
      proof (cases "lookup h2 node")
        case None
        then have "res = Inl NoObject" "st' = ?st2"
          using Suc.prems(2) Inr p f 3 by auto
        with c show ?thesis by simp
      next
        case (Some ob)
        let ?n = "length (obj_args ob)"
        obtain r3 st3 where r: "transform_args (\<lambda>cn. transform n fn cn False) node ?n [0..<?n] ?st2
            = (r3, st3)"
          by (cases "transform_args (\<lambda>cn. transform n fn cn False) node ?n [0..<?n] ?st2")
        have s3: "(r3 = Inl ValueError) = (\<not> clean st3)"
          using transform_args_sound [OF rec c r] .
        have "res = (case r3 of Inl e \<Rightarrow> Inl e | Inr _ \<Rightarrow> Inr (Ref node))" "st' = st3"
          using Suc.prems(2) Inr p f 3 Some r by (auto split: sum.splits)
        with s3 show ?thesis by (auto split: sum.splits)
      qed
    qed
  qed
qed

text \<open>
  C8. A pass ends with the \<open>ValueError\<close> of \<open>transform\<close> exactly when some call of the
  rewrite function during the pass returned \<open>None\<close>: when one did, no tree is returned,
  and when none did, no such error is raised. (Other errors are possible: the recursion
  limit, and the errors noted at C1.)
\<close>

theorem transform_ValueError_iff_None:
  assumes "transform n fn self copy \<lparr>objs = h, calls = []\<rparr> = (res, st')"
  shows "(res = Inl ValueError) = (\<exists>c \<in> set (calls st'). snd c = RNone)"
proof -
  have "clean \<lparr>objs = h, calls = []\<rparr>" by (simp add: clean_def)
  from transform_sound [OF this assms] show ?thesis by (auto simp: clean_def)
qed

theorem transform_ValueError_iff_None_witness:
  "fst (transform 5 columns_to_None 0 False \<lparr>objs = paren_store, calls = []\<rparr>) = Inl ValueError
   \<and> calls (snd (transform 5 columns_to_None 0 False \<lparr>objs = paren_store, calls = []\<rparr>)) =
       [(0, Ref 0), (1, RNone)]
   \<and> fst (transform 5 identity 0 False \<lparr>objs = paren_store, calls = []\<rparr>) = Inr (Ref 0)
   \<and> calls (snd (transform 5 identity 0 False \<lparr>objs = paren_store, calls = []\<rparr>)) =
       [(0, Ref 0), (1, Ref 1)]"
proof -
  let ?a = "transform 5 columns_to_None 0 False \<lparr>objs = paren_store, calls = []\<rparr>"
  let ?b = "transform 5 identity 0 False \<lparr>objs = paren_store, calls = []\<rparr>"
  note ev = eval_nat_numeral columns_to_None_def identity_def paren_store_def mk_node_def
    lookup_def set_arg_def assign_parent_def set_parent_def upt_rec
  have ca: "calls (snd ?a) = [(0, Ref 0), (1, RNone)]" by (simp add: ev)
  have cb: "calls (snd ?b) = [(0, Ref 0), (1, Ref 1)]" by (simp add: ev)
  have rb: "fst ?b = Inr (Ref 0)" by (simp add: ev)
  have "(fst ?a = Inl ValueError) = (\<exists>c \<in> set (calls (snd ?a)). snd c = RNone)"
    by (rule transform_ValueError_iff_None) simp
  then have ra: "fst ?a = Inl ValueError" by (simp add: ca)
  show ?thesis using ra ca rb cb by simp
qed

subsection \<open>Replacements are terminal\<close>




end
